theory Spec2Isabelle
  imports Complex_Main "HOL-Library.Multiset" "HOL-Library.Char_ord" "HOL-Library.List_Lexorder"
begin

section \<open>Python strings\<close>

text \<open>
  A Python \<open>str\<close> is modelled as a \<open>string\<close>: a list of characters with code points
  below 256. \<open>str.lower\<close>, \<open>str.upper\<close> and the whitespace test of \<open>str.strip()\<close> are
  Python's on that range.
\<close>

definition py_isspace :: "char \<Rightarrow> bool" where
  "py_isspace c =
     (let n = (of_char c :: nat)
      in (9 \<le> n \<and> n \<le> 13) \<or> (28 \<le> n \<and> n \<le> 32) \<or> n = 133 \<or> n = 160)"

definition py_lower_char :: "char \<Rightarrow> char" where
  "py_lower_char c =
     (let n = (of_char c :: nat)
      in if (65 \<le> n \<and> n \<le> 90) \<or> (192 \<le> n \<and> n \<le> 222 \<and> n \<noteq> 215)
         then char_of (n + 32) else c)"

definition py_upper_char :: "char \<Rightarrow> char" where
  "py_upper_char c =
     (let n = (of_char c :: nat)
      in if (97 \<le> n \<and> n \<le> 122) \<or> (224 \<le> n \<and> n \<le> 254 \<and> n \<noteq> 247)
         then char_of (n - 32) else c)"

definition lower :: "string \<Rightarrow> string" where
  "lower s = map py_lower_char s"

text \<open>\<open>s.strip()\<close> and \<open>s.strip(chars)\<close>: drop the characters at both ends.\<close>

definition strip_where :: "(char \<Rightarrow> bool) \<Rightarrow> string \<Rightarrow> string" where
  "strip_where P s = rev (dropWhile P (rev (dropWhile P s)))"

definition strip :: "string \<Rightarrow> string" where
  "strip s = strip_where py_isspace s"

definition strip_chars :: "string \<Rightarrow> string \<Rightarrow> string" where
  "strip_chars chars s = strip_where (\<lambda>c. c \<in> set chars) s"

text \<open>\<open>s.split(sep)\<close> for a separator of one character: never the empty list.\<close>

fun split_on :: "char \<Rightarrow> string \<Rightarrow> string list" where
  "split_on sep [] = [[]]"
| "split_on sep (c # cs) =
     (if c = sep then [] # split_on sep cs
      else (case split_on sep cs of
              [] \<Rightarrow> [[c]]
            | w # ws \<Rightarrow> (c # w) # ws))"

text \<open>\<open>sep.join(xs)\<close>\<close>

fun join :: "string \<Rightarrow> string list \<Rightarrow> string" where
  "join sep [] = []"
| "join sep [x] = x"
| "join sep (x # y # ys) = x @ sep @ join sep (y # ys)"

section \<open>Domain helpers\<close>

text \<open>The first line of \<open>split_domain\<close>: \<open>user_domain.strip().lower().strip(".")\<close>.\<close>

definition host_of :: "string \<Rightarrow> string" where
  "host_of user_domain = strip_chars ''.'' (lower (strip user_domain))"

definition split_domain :: "string \<Rightarrow> string \<times> string \<times> string" where
  "split_domain user_domain =
     (let host = host_of user_domain;
          labels = split_on CHR ''.'' host
      in if length labels < 2 then ([], host, [])
         else (let tld = last labels;
                   registrable = labels ! (length labels - 2);
                   sub = join ''.'' (take (length labels - 2) labels)
               in (sub, registrable, tld)))"

text \<open>
  The rejoining the specification speaks of: the three components with dots between
  them, an empty subdomain left out.
\<close>

fun rejoin :: "string \<times> string \<times> string \<Rightarrow> string" where
  "rejoin (sub, registrable, tld) =
     (if sub = [] then registrable @ ''.'' @ tld
      else sub @ ''.'' @ registrable @ ''.'' @ tld)"

section \<open>Regular expressions\<close>

text \<open>
  The patterns of the program use character classes, literals, greedy repetition of a
  class, optional groups, concatenation and alternation. \<open>rx_match\<close> is the backtracking
  matcher of Python's \<open>re\<close>: at a position it gives the remainders of the text after each
  way of matching, in the order in which backtracking tries them (greedy: longest first).
  \<open>Lit s\<close> stands for \<open>re.escape(s)\<close> inside a pattern: the text \<open>s\<close>, taken literally.
\<close>

datatype cls_item = Rng char char | Chr char

datatype rx =
    Lit string
  | Rep "cls_item list" nat "nat option"
  | Seq rx rx
  | Opt rx
  | Alt rx rx

fun in_item :: "char \<Rightarrow> cls_item \<Rightarrow> bool" where
  "in_item c (Rng a b) = ((of_char a :: nat) \<le> of_char c \<and> (of_char c :: nat) \<le> of_char b)"
| "in_item c (Chr a) = (c = a)"

text \<open>With \<open>(?i)\<close> a character is in a class when its lower or its upper case form is.\<close>

definition in_cls :: "bool \<Rightarrow> cls_item list \<Rightarrow> char \<Rightarrow> bool" where
  "in_cls ic items c =
     (if ic then list_ex (in_item (py_lower_char c)) items \<or> list_ex (in_item (py_upper_char c)) items
      else list_ex (in_item c) items)"

definition char_eq :: "bool \<Rightarrow> char \<Rightarrow> char \<Rightarrow> bool" where
  "char_eq ic a b = (if ic then py_lower_char a = py_lower_char b else a = b)"

fun lit_match :: "bool \<Rightarrow> string \<Rightarrow> string \<Rightarrow> string option" where
  "lit_match ic [] s = Some s"
| "lit_match ic (l # ls) [] = None"
| "lit_match ic (l # ls) (c # cs) = (if char_eq ic l c then lit_match ic ls cs else None)"

fun rx_match :: "bool \<Rightarrow> rx \<Rightarrow> string \<Rightarrow> string list" where
  "rx_match ic (Lit l) s = (case lit_match ic l s of None \<Rightarrow> [] | Some r \<Rightarrow> [r])"
| "rx_match ic (Rep cls lo hi) s =
     (let n = length (takeWhile (in_cls ic cls) s);
          m = (case hi of None \<Rightarrow> n | Some h \<Rightarrow> min h n)
      in map (\<lambda>k. drop k s) (rev [lo..<Suc m]))"
| "rx_match ic (Seq a b) s = concat (map (rx_match ic b) (rx_match ic a s))"
| "rx_match ic (Opt a) s = rx_match ic a s @ [s]"
| "rx_match ic (Alt a b) s = rx_match ic a s @ rx_match ic b s"

fun seqs :: "rx list \<Rightarrow> rx" where
  "seqs [] = Lit []"
| "seqs [r] = r"
| "seqs (r # rs) = Seq r (seqs rs)"

text \<open>A compiled pattern: the \<open>(?i)\<close> flag and the expression.\<close>

record pattern =
  ignorecase :: bool
  regex :: rx

text \<open>
  One match attempt at the start of \<open>s\<close>: the length of the match. With \<open>must_advance\<close>
  (set by the scanner after an empty match) a match that ends where it starts is
  rejected and backtracking goes on.
\<close>

definition match_len :: "pattern \<Rightarrow> bool \<Rightarrow> string \<Rightarrow> nat option" where
  "match_len p must_advance s =
     (case filter (\<lambda>r. if must_advance then length r < length s else True)
             (rx_match (ignorecase p) (regex p) s) of
        [] \<Rightarrow> None
      | r # _ \<Rightarrow> Some (length s - length r))"

text \<open>\<open>re.finditer(p, s)\<close>, as the list of \<open>m.group(0)\<close>: leftmost matches that do not overlap.\<close>

function finditer_from :: "pattern \<Rightarrow> bool \<Rightarrow> string \<Rightarrow> string list" where
  "finditer_from p must_advance s =
     (case match_len p must_advance s of
        None \<Rightarrow> (case s of [] \<Rightarrow> [] | c # cs \<Rightarrow> finditer_from p False cs)
      | Some n \<Rightarrow>
          take n s #
          (if n = 0 then (if s = [] then [] else finditer_from p True s)
           else finditer_from p False (drop n s)))"
  by pat_completeness auto
termination
proof (relation "measure (\<lambda>(p, adv, s). 2 * length s + (if adv then 0 else 1))", goal_cases)
  case 1
  show ?case by simp
next
  case (2 p adv s c cs)
  then show ?case by simp
next
  case (3 p adv s n)
  have "\<not> adv"
  proof
    assume adv
    with 3 obtain r rs where
      "filter (\<lambda>r. length r < length s) (rx_match (ignorecase p) (regex p) s) = r # rs"
      "length s - length r = 0"
      by (auto simp: match_len_def split: list.splits)
    then show False by (metis Cons_eq_filterD diff_is_0_eq not_le)
  qed
  then show ?case by simp
next
  case (4 p adv s n)
  then have "n \<le> length s"
    by (auto simp: match_len_def split: list.splits)
  with 4 show ?case by simp
qed

definition finditer :: "pattern \<Rightarrow> string \<Rightarrow> string list" where
  "finditer p s = finditer_from p False s"

text \<open>\<open>p.search(s)\<close> as a truth value: a match starts at some position of \<open>s\<close>.\<close>

definition re_search :: "pattern \<Rightarrow> string \<Rightarrow> bool" where
  "re_search p s =
     list_ex (\<lambda>k. rx_match (ignorecase p) (regex p) (drop k s) \<noteq> []) [0..<Suc (length s)]"

text \<open>\<open>p.fullmatch(s)\<close> as a truth value: some way of matching uses up all of \<open>s\<close>.\<close>

definition fullmatch :: "pattern \<Rightarrow> string \<Rightarrow> bool" where
  "fullmatch p s = ([] \<in> set (rx_match (ignorecase p) (regex p) s))"

section \<open>Patterns of the program\<close>

text \<open>\<open>[0-9a-z\-\.]\<close>, \<open>[0-9a-z\-]\<close> and \<open>[a-z]\<close>\<close>

definition host_cls :: "cls_item list" where
  "host_cls = [Rng CHR ''0'' CHR ''9'', Rng CHR ''a'' CHR ''z'', Chr CHR ''-'', Chr CHR ''.'']"

definition label_cls :: "cls_item list" where
  "label_cls = [Rng CHR ''0'' CHR ''9'', Rng CHR ''a'' CHR ''z'', Chr CHR ''-'']"

definition alpha_cls :: "cls_item list" where
  "alpha_cls = [Rng CHR ''a'' CHR ''z'']"

text \<open>
  \<open>build_patterns\<close>. Extended:
  \<^verbatim>\<open>(?i)[0-9a-z\-\.]+\.([0-9a-z\-]+)?{registrable}([0-9a-z\-\.]+)?\.[a-z]{1,5}\<close>,
  standard: \<^verbatim>\<open>(?i)(([0-9a-z\-\.]+)\.)?{core}\<close>.
\<close>

definition build_patterns :: "string \<Rightarrow> bool \<Rightarrow> string \<times> pattern" where
  "build_patterns user_domain extended =
     (case split_domain user_domain of (sub, registrable, tld) \<Rightarrow>
        if extended then
          (registrable,
           \<lparr>ignorecase = True,
            regex = seqs [Rep host_cls 1 None, Lit ''.'', Opt (Rep label_cls 1 None),
                          Lit registrable, Opt (Rep host_cls 1 None), Lit ''.'',
                          Rep alpha_cls 1 (Some 5)]\<rparr>)
        else
          (let (search, core) =
                 (if sub \<noteq> [] then
                    (sub @ ''.'' @ registrable @ ''.'' @ tld,
                     seqs [Lit sub, Lit ''.'', Lit registrable, Lit ''.'', Lit tld])
                  else
                    (registrable @ ''.'' @ tld,
                     seqs [Lit registrable, Lit ''.'', Lit tld]))
           in (search,
               \<lparr>ignorecase = True,
                regex = Seq (Opt (Seq (Rep host_cls 1 None) (Lit ''.''))) core\<rparr>)))"

text \<open>
  \<open>TOKEN_RE\<close>:
  \<^verbatim>\<open>(?:[0-9a-f]{40}|ghp_[A-Za-z0-9]{36}|github_pat_[_A-Za-z0-9]{82})\<close>
\<close>

definition TOKEN_RE :: pattern where
  "TOKEN_RE =
     \<lparr>ignorecase = False,
      regex =
        Alt (Rep [Rng CHR ''0'' CHR ''9'', Rng CHR ''a'' CHR ''f''] 40 (Some 40))
       (Alt (Seq (Lit ''ghp_'')
                 (Rep [Rng CHR ''A'' CHR ''Z'', Rng CHR ''a'' CHR ''z'', Rng CHR ''0'' CHR ''9'']
                      36 (Some 36)))
            (Seq (Lit ''github_pat_'')
                 (Rep [Chr CHR ''_'', Rng CHR ''A'' CHR ''Z'', Rng CHR ''a'' CHR ''z'',
                       Rng CHR ''0'' CHR ''9''] 82 (Some 82))))\<rparr>"

section \<open>Credentials\<close>

text \<open>
  \<open>read_tokens_from_file\<close>: the file is given by its lines, \<open>None\<close> when the path
  does not exist.
\<close>

fun read_lines :: "string list \<Rightarrow> string list \<Rightarrow> string list" where
  "read_lines toks [] = toks"
| "read_lines toks (line # rest) =
     (let t = strip line
      in if t \<noteq> [] \<and> re_search TOKEN_RE t \<and> t \<notin> set toks
         then read_lines (toks @ [t]) rest
         else read_lines toks rest)"

definition read_tokens_from_file :: "string list option \<Rightarrow> string list" where
  "read_tokens_from_file file = (case file of None \<Rightarrow> [] | Some lines \<Rightarrow> read_lines [] lines)"

text \<open>
  The credential list of \<open>main\<close> (lines 233 to 241): the \<open>-t\<close> argument, else the
  environment variable, else the file. An empty result makes \<open>main\<close> exit with status 2.
\<close>

definition select_tokens :: "string \<Rightarrow> string \<Rightarrow> string list option \<Rightarrow> string list" where
  "select_tokens tokens_arg env file =
     (let tokens1 =
            (if tokens_arg \<noteq> []
             then map strip (filter (\<lambda>t. re_search TOKEN_RE (strip t))
                                    (split_on CHR '','' tokens_arg))
             else []);
          tokens2 =
            (if tokens1 = []
             then (let e = strip env
                   in if e \<noteq> [] \<and> re_search TOKEN_RE e then [e] else tokens1)
             else tokens1)
      in if tokens2 = [] then read_tokens_from_file file else tokens2)"

section \<open>TokenPool\<close>

text \<open>
  Time is a real number; every method that reads \<open>time.time()\<close> takes the reading as
  its first argument. The lock is left out: the calls of the model are sequential.
  \<open>random.shuffle\<close> is a parameter of the constructor.
\<close>

record token_entry =
  tvalue :: string
  disabled_until :: real

record token_pool =
  tokens :: "token_entry list"
  stop_when_empty :: bool
  idx :: nat

definition RATE_LIMIT_COOLDOWN :: real where
  "RATE_LIMIT_COOLDOWN = 61"

definition TokenPool ::
  "(token_entry list \<Rightarrow> token_entry list) \<Rightarrow> string list \<Rightarrow> bool \<Rightarrow> token_pool" where
  "TokenPool shuffle toks stop =
     \<lparr>tokens = shuffle (map (\<lambda>t. \<lparr>tvalue = t, disabled_until = 0\<rparr>) toks),
      stop_when_empty = stop, idx = 0\<rparr>"

definition available_indices :: "real \<Rightarrow> token_pool \<Rightarrow> nat list" where
  "available_indices now p =
     filter (\<lambda>i. disabled_until (tokens p ! i) \<le> now) [0..<length (tokens p)]"

text \<open>\<open>xs.index(x)\<close> for an \<open>x\<close> that occurs in \<open>xs\<close>\<close>

definition py_index :: "'a list \<Rightarrow> 'a \<Rightarrow> nat" where
  "py_index xs x = length (takeWhile (\<lambda>y. y \<noteq> x) xs)"

definition get :: "real \<Rightarrow> token_pool \<Rightarrow> string option \<times> token_pool" where
  "get now p =
     (let avail = available_indices now p
      in if avail = [] then (None, p)
         else (let i = (if idx p \<in> set avail then idx p else hd avail);
                   t = tokens p ! i;
                   nxt = py_index avail i + 1;
                   nxt' = (if length avail \<le> nxt then 0 else nxt)
               in (Some (tvalue t), p\<lparr>idx := avail ! nxt'\<rparr>)))"

fun disable_first :: "string \<Rightarrow> real \<Rightarrow> token_entry list \<Rightarrow> token_entry list" where
  "disable_first tok until [] = []"
| "disable_first tok until (t # ts) =
     (if tvalue t = tok then t\<lparr>disabled_until := until\<rparr> # ts
      else t # disable_first tok until ts)"

definition disable :: "real \<Rightarrow> string \<Rightarrow> real \<Rightarrow> token_pool \<Rightarrow> token_pool" where
  "disable now tok cooldown p = p\<lparr>tokens := disable_first tok (now + cooldown) (tokens p)\<rparr>"

definition any_available :: "real \<Rightarrow> token_pool \<Rightarrow> bool" where
  "any_available now p = list_ex (\<lambda>t. disabled_until t \<le> now) (tokens p)"

text \<open>Successive calls of \<open>get\<close>, one per clock reading: the values returned.\<close>

fun get_many :: "real list \<Rightarrow> token_pool \<Rightarrow> string option list" where
  "get_many [] p = []"
| "get_many (now # nows) p = (case get now p of (r, p') \<Rightarrow> r # get_many nows p')"

section \<open>GitHub API\<close>

text \<open>
  What \<open>gh_request\<close> returns: the status (\<open>None\<close> when the request raised anything but
  an HTTP error), the response headers and the body. \<open>github_search\<close> and \<open>fetch_code\<close>
  take this triple, the answer of the network to their request, as an argument.
  \<open>json.loads(body.decode("utf-8", "ignore"))\<close> is the parameter \<open>loads\<close> (\<open>None\<close> when it
  raises), \<open>body.decode("utf-8", "ignore")\<close> the parameter \<open>decode\<close>.
\<close>

type_synonym response = "int option \<times> (string \<rightharpoonup> string) \<times> string"

datatype json =
    JNull
  | JBool bool
  | JNum int
  | JStr string
  | JArr "json list"
  | JObj "(string \<times> json) list"

text \<open>
  The error dictionaries: \<open>{"error": "network"}\<close>, \<open>{"error": "ratelimit", "message": msg}\<close>
  (no message from \<open>fetch_code\<close>), \<open>{"error": f"http_{status}"}\<close> and \<open>{"error": "json"}\<close>.
\<close>

datatype error = Network | Ratelimit "json option" | Http int | Json_error

text \<open>\<open>d.get(k, default)\<close>; \<open>None\<close> is the AttributeError of a value that is no dictionary.\<close>

definition dict_get :: "json \<Rightarrow> string \<Rightarrow> json \<Rightarrow> json option" where
  "dict_get d k dflt =
     (case d of
        JObj kvs \<Rightarrow> Some (case map_of kvs k of None \<Rightarrow> dflt | Some v \<Rightarrow> v)
      | _ \<Rightarrow> None)"

definition github_search :: "(string \<Rightarrow> json option) \<Rightarrow> response \<Rightarrow> error + json" where
  "github_search loads resp =
     (case resp of (status, hdr, body) \<Rightarrow>
        (case status of
           None \<Rightarrow> Inl Network
         | Some st \<Rightarrow>
             if st = 403 \<or> hdr ''X-RateLimit-Remaining'' = Some ''0'' then
               Inl (Ratelimit (Some
                 (case loads body of
                    None \<Rightarrow> JStr []
                  | Some d \<Rightarrow> (case dict_get d ''message'' (JStr []) of
                                 None \<Rightarrow> JStr []
                               | Some m \<Rightarrow> m))))
             else if st \<noteq> 200 then Inl (Http st)
             else (case loads body of
                     None \<Rightarrow> Inl Json_error
                   | Some data \<Rightarrow> Inr data)))"

text \<open>\<open>s.replace(old, new)\<close>\<close>

function py_replace :: "string \<Rightarrow> string \<Rightarrow> string \<Rightarrow> string" where
  "py_replace old new s =
     (if old = [] then new @ concat (map (\<lambda>c. c # new) s)
      else if take (length old) s = old then new @ py_replace old new (drop (length old) s)
      else (case s of [] \<Rightarrow> [] | c # cs \<Rightarrow> c # py_replace old new cs))"
  by pat_completeness auto
termination
proof (relation "measure (\<lambda>(old, new, s). length s)", goal_cases)
  case 1
  show ?case by simp
next
  case (2 old new s)
  then have "s \<noteq> []" by auto
  with 2 show ?case by simp
next
  case (3 old new s c cs)
  then show ?case by simp
qed

definition to_raw_url :: "string \<Rightarrow> string" where
  "to_raw_url html_url =
     py_replace ''/blob/'' ''/''
       (py_replace ''https://github.com/'' ''https://raw.githubusercontent.com/'' html_url)"

definition fetch_code :: "(string \<Rightarrow> string) \<Rightarrow> response \<Rightarrow> error + string" where
  "fetch_code decode resp =
     (case resp of (status, hdr, body) \<Rightarrow>
        (case status of
           None \<Rightarrow> Inl Network
         | Some st \<Rightarrow>
             if 500 \<le> st then Inl Network
             else if st = 403 \<or> hdr ''X-RateLimit-Remaining'' = Some ''0'' then
               Inl (Ratelimit None)
             else if st \<noteq> 200 then Inl (Http st)
             else Inr (decode body)))"

section \<open>Search plan\<close>

definition DEFAULT_LANGUAGES :: "string list" where
  "DEFAULT_LANGUAGES =
     [''JavaScript'', ''Python'', ''Java'', ''Go'', ''Ruby'', ''PHP'', ''Shell'', ''CSV'',
      ''Markdown'', ''XML'', ''JSON'', ''Text'', ''CSS'', ''HTML'', ''Perl'', ''ActionScript'',
      ''Lua'', ''C'', ''C%2B%2B'', ''C%23'']"

definition DEFAULT_NOISE :: "string list" where
  "DEFAULT_NOISE =
     [''api'', ''private'', ''secret'', ''internal'', ''corp'', ''development'', ''production'']"

definition build_searches :: "string \<Rightarrow> bool \<Rightarrow> string list" where
  "build_searches base_search quick =
     (let quoted = [CHR 0x22] @ base_search @ [CHR 0x22]
      in if quick then [quoted]
         else [quoted]
              @ map (\<lambda>lang. quoted @ '' language:'' @ lang) DEFAULT_LANGUAGES
              @ map (\<lambda>term. quoted @ '' '' @ term) DEFAULT_NOISE)"

section \<open>Main\<close>

text \<open>The parsed command line.\<close>

record args =
  domain :: string
  tokens_arg :: string
  output_arg :: string
  extended :: bool
  quick :: bool
  stop_when_no_token :: bool
  raw :: bool
  version :: bool

text \<open>
  What a run reads from outside: the environment variable, the lines of \<open>.tokens\<close>
  (\<open>None\<close> when there is no such file), the permutation of \<open>random.shuffle\<close>, the clock at
  the start, the answers of the network (to the \<open>n\<close>-th search request, for a query, a
  page and a token; to the fetch of a raw address with a token), the two decoders, and
  whether the output file can be written.
\<close>

record world =
  env_token :: string
  tokens_file :: "string list option"
  shuffle :: "token_entry list \<Rightarrow> token_entry list"
  start_time :: real
  search_reply :: "nat \<Rightarrow> string \<Rightarrow> nat \<Rightarrow> string \<Rightarrow> response"
  fetch_reply :: "string \<Rightarrow> string \<Rightarrow> response"
  json_loads :: "string \<Rightarrow> json option"
  decode_text :: "string \<Rightarrow> string"
  writable :: bool

text \<open>
  The messages of the program, one constructor for each text it prints:
  "no available token, exiting", "no available token, waiting...",
  "rate limit hit, token disabled ~60s", "search error: ... (q=..., page=...)",
  "no items: q=... page=... total=...", a found domain, the two lines at the start,
  "done: ... unique -> ...", "no token provided or found ...", "cannot write output: ..."
  and the line of \<open>--version\<close>. A line is printed plain or after a time stamp.
\<close>

datatype line =
    No_token_exiting
  | No_token_waiting
  | Rate_limit_hit
  | Search_error error string nat
  | No_items string nat json
  | Found_domain string
  | Banner
  | Settings string bool bool nat string
  | Done_line nat string
  | No_token_found
  | Cannot_write
  | Version_line

datatype printed = Plain line | Stamped line

datatype level = L_info | L_warn | L_error | L_found

definition log_line :: "bool \<Rightarrow> level \<Rightarrow> line \<Rightarrow> printed list \<Rightarrow> printed list" where
  "log_line raw_mode lvl msg printed_so_far =
     (if raw_mode \<and> lvl = L_found then printed_so_far @ [Plain msg]
      else if raw_mode then printed_so_far
      else printed_so_far @ [Stamped msg])"

text \<open>
  The state of the loops of \<open>main\<close>. The clock advances by the arguments of
  \<open>time.sleep\<close>; \<open>requests\<close> counts the search requests made.
\<close>

record run_state =
  pool :: token_pool
  clock :: real
  requests :: nat
  seen_urls :: "string set"
  found_domains :: "string set"
  out :: "printed list"

definition sleep :: "real \<Rightarrow> run_state \<Rightarrow> run_state" where
  "sleep d st = st\<lparr>clock := clock st + d\<rparr>"

definition say :: "args \<Rightarrow> level \<Rightarrow> line \<Rightarrow> run_state \<Rightarrow> run_state" where
  "say a lvl msg st = st\<lparr>out := log_line (raw a) lvl msg (out st)\<rparr>"

definition is_ratelimit :: "error \<Rightarrow> bool" where
  "is_ratelimit e = (case e of Ratelimit m \<Rightarrow> True | _ \<Rightarrow> False)"

text \<open>The truth value of a decoded JSON value.\<close>

fun json_truthy :: "json \<Rightarrow> bool" where
  "json_truthy JNull = False"
| "json_truthy (JBool b) = b"
| "json_truthy (JNum n) = (n \<noteq> 0)"
| "json_truthy (JStr s) = (s \<noteq> [])"
| "json_truthy (JArr xs) = (xs \<noteq> [])"
| "json_truthy (JObj kvs) = (kvs \<noteq> [])"

text \<open>Line 307: \<open>m.group(0).lower().strip(".")\<close>\<close>

definition normalize_match :: "string \<Rightarrow> string" where
  "normalize_match m = strip_chars ''.'' (lower m)"

text \<open>A domain in normal form: lowercased, no dot at either end.\<close>

definition normal_form :: "string \<Rightarrow> bool" where
  "normal_form d = (normalize_match d = d)"

text \<open>
  Two strings that, in the words of the specification, differ only by letter case or
  by a trailing dot: they are equal once the dots at the end are dropped and the
  letters are lowercased.
\<close>

definition rstrip_dots :: "string \<Rightarrow> string" where
  "rstrip_dots s = rev (dropWhile (\<lambda>c. c = CHR ''.'') (rev s))"

definition same_but_case_or_trailing_dot :: "string \<Rightarrow> string \<Rightarrow> bool" where
  "same_but_case_or_trailing_dot x y = (lower (rstrip_dots x) = lower (rstrip_dots y))"

text \<open>Lines 306 to 310, over the matches of one text.\<close>

fun add_matches :: "args \<Rightarrow> string list \<Rightarrow> run_state \<Rightarrow> run_state" where
  "add_matches a [] st = st"
| "add_matches a (m # ms) st =
     (let dom = normalize_match m
      in if dom \<noteq> [] \<and> dom \<notin> found_domains st
         then add_matches a ms
                (say a L_found (Found_domain dom)
                   (st\<lparr>found_domains := insert dom (found_domains st)\<rparr>))
         else add_matches a ms st)"

text \<open>
  Lines 291 to 296: the addresses submitted for fetching and the new set of seen
  addresses. \<open>None\<close> is an uncaught exception: an item that is no dictionary, or an
  \<open>html_url\<close> that is true and no string (it fails in \<open>to_raw_url\<close> at the latest).
\<close>

fun submit_items ::
  "json list \<Rightarrow> string set \<Rightarrow> string list \<Rightarrow> (string set \<times> string list) option" where
  "submit_items [] seen urls = Some (seen, urls)"
| "submit_items (it # its) seen urls =
     (case dict_get it ''html_url'' JNull of
        None \<Rightarrow> None
      | Some v \<Rightarrow>
          if \<not> json_truthy v then submit_items its seen urls
          else (case v of
                  JStr u \<Rightarrow>
                    if u \<in> seen then submit_items its seen urls
                    else submit_items its (insert u seen) (urls @ [u])
                | _ \<Rightarrow> None))"

text \<open>
  Lines 298 to 310: the results of the fetches, taken in the order of submission (one
  of the orders in which \<open>as_completed\<close> may deliver them).
\<close>

fun collect_results ::
  "args \<Rightarrow> world \<Rightarrow> pattern \<Rightarrow> string \<Rightarrow> string list \<Rightarrow> run_state \<Rightarrow> run_state" where
  "collect_results a w domain_re tok [] st = st"
| "collect_results a w domain_re tok (url # urls) st =
     (case fetch_code (decode_text w) (fetch_reply w (to_raw_url url) tok) of
        Inl ferr \<Rightarrow>
          collect_results a w domain_re tok urls
            (if is_ratelimit ferr
             then st\<lparr>pool := disable (clock st) tok RATE_LIMIT_COOLDOWN (pool st)\<rparr>
             else st)
      | Inr text \<Rightarrow>
          if text = [] then collect_results a w domain_re tok urls st
          else collect_results a w domain_re tok urls
                 (add_matches a (finditer domain_re text) st))"

text \<open>
  One pass through the body of the \<open>while\<close> loop (lines 261 to 313): the loop is left
  (\<open>break\<close>), goes on with a page and a state, or an exception escapes.
\<close>

datatype step = Break run_state | Continue nat run_state | Raise

definition page_step ::
  "args \<Rightarrow> world \<Rightarrow> pattern \<Rightarrow> string \<Rightarrow> nat \<Rightarrow> run_state \<Rightarrow> step" where
  "page_step a w domain_re q page st =
     (case get (clock st) (pool st) of
        (None, pool') \<Rightarrow>
          if stop_when_no_token a then Break (say a L_error No_token_exiting st)
          else Continue page (sleep 3 (say a L_info No_token_waiting st))
      | (Some tok, pool') \<Rightarrow>
          (let st1 = st\<lparr>pool := pool', requests := Suc (requests st)\<rparr>
           in case github_search (json_loads w) (search_reply w (requests st) q page tok) of
                Inl err \<Rightarrow>
                  if is_ratelimit err then
                    Continue page
                      (sleep 1 (say a L_warn Rate_limit_hit
                         (st1\<lparr>pool := disable (clock st1) tok RATE_LIMIT_COOLDOWN (pool st1)\<rparr>)))
                  else Break (sleep (1 / 2) (say a L_warn (Search_error err q page) st1))
              | Inr data \<Rightarrow>
                  (case data of
                     JObj kvs \<Rightarrow>
                       (let items0 = (case map_of kvs ''items'' of None \<Rightarrow> JNull | Some v \<Rightarrow> v);
                            items = (if json_truthy items0 then items0 else JArr []);
                            total = (case map_of kvs ''total_count'' of
                                       None \<Rightarrow> JNum 0 | Some v \<Rightarrow> v)
                        in if \<not> json_truthy items then
                             Break (if \<not> raw a then say a L_info (No_items q page total) st1
                                    else st1)
                           else (case items of
                                   JArr its \<Rightarrow>
                                     (case submit_items its (seen_urls st1) [] of
                                        None \<Rightarrow> Raise
                                      | Some (seen, urls) \<Rightarrow>
                                          Continue (Suc page)
                                            (sleep (1 / 5)
                                               (collect_results a w domain_re tok urls
                                                  (st1\<lparr>seen_urls := seen\<rparr>))))
                                 | _ \<Rightarrow> Raise))
                   | _ \<Rightarrow> Raise)))"

definition SEARCH_MAX_PAGES :: nat where
  "SEARCH_MAX_PAGES = 10"

text \<open>
  A run of a loop that may go on for ever ends for lack of fuel, by an uncaught
  exception, or with a value.
\<close>

datatype 'a run = Out_of_fuel | Uncaught | Finished 'a

text \<open>The \<open>while\<close> loop of one query; the fuel bounds the passes through its body.\<close>

fun page_loop ::
  "nat \<Rightarrow> args \<Rightarrow> world \<Rightarrow> pattern \<Rightarrow> string \<Rightarrow> nat \<Rightarrow> run_state \<Rightarrow> run_state run" where
  "page_loop 0 a w domain_re q page st = Out_of_fuel"
| "page_loop (Suc fuel) a w domain_re q page st =
     (if page \<le> SEARCH_MAX_PAGES then
        (case page_step a w domain_re q page st of
           Break st' \<Rightarrow> Finished st'
         | Continue page' st' \<Rightarrow> page_loop fuel a w domain_re q page' st'
         | Raise \<Rightarrow> Uncaught)
      else Finished st)"

text \<open>\<open>for q in searches\<close>, each query with the same fuel.\<close>

fun query_loop ::
  "nat \<Rightarrow> args \<Rightarrow> world \<Rightarrow> pattern \<Rightarrow> string list \<Rightarrow> run_state \<Rightarrow> run_state run" where
  "query_loop fuel a w domain_re [] st = Finished st"
| "query_loop fuel a w domain_re (q # qs) st =
     (case page_loop fuel a w domain_re q 1 st of
        Out_of_fuel \<Rightarrow> Out_of_fuel
      | Uncaught \<Rightarrow> Uncaught
      | Finished st' \<Rightarrow> query_loop fuel a w domain_re qs st')"

text \<open>
  What a run leaves behind: the exit status (0 when \<open>main\<close> returns), the lines printed,
  and the file written, with its name and its lines.
\<close>

record final =
  exit_status :: nat
  printed_lines :: "printed list"
  written :: "(string \<times> string list) option"

definition main :: "nat \<Rightarrow> args \<Rightarrow> world \<Rightarrow> final run" where
  "main fuel a w =
     (if version a then
        Finished \<lparr>exit_status = 0, printed_lines = [Plain Version_line], written = None\<rparr>
      else
        (let toks = select_tokens (tokens_arg a) (env_token w) (tokens_file w)
         in if toks = [] then
              Finished \<lparr>exit_status = 2,
                        printed_lines = log_line (raw a) L_error No_token_found [],
                        written = None\<rparr>
            else
              (let pool0 = TokenPool (shuffle w) toks (stop_when_no_token a);
                   out_file = (if output_arg a \<noteq> [] then output_arg a else domain a @ ''.txt'');
                   (search_keyword, domain_re) = build_patterns (domain a) (extended a);
                   searches = build_searches search_keyword (quick a);
                   st0 = \<lparr>pool = pool0, clock = start_time w, requests = 0, seen_urls = {},
                          found_domains = {},
                          out = (if \<not> raw a
                                 then [Stamped Banner,
                                       Stamped (Settings (domain a) (extended a) (quick a)
                                                  (length toks) out_file)]
                                 else [])\<rparr>
               in case query_loop fuel a w domain_re searches st0 of
                    Out_of_fuel \<Rightarrow> Out_of_fuel
                  | Uncaught \<Rightarrow> Uncaught
                  | Finished st \<Rightarrow>
                      if writable w then
                        Finished
                          \<lparr>exit_status = 0,
                           printed_lines =
                             (if \<not> raw a
                              then log_line (raw a) L_info
                                     (Done_line (card (found_domains st)) out_file) (out st)
                              else out st),
                           written = Some (out_file, sorted_list_of_set (found_domains st))\<rparr>
                      else
                        Finished
                          \<lparr>exit_status = 4,
                           printed_lines = log_line (raw a) L_error Cannot_write (out st),
                           written = None\<rparr>)))"

text \<open>
  The states of a run: \<open>main\<close> starts with no found domain; every pass through the body
  of the page loop, for any query and page, leads from a state of the run to the next;
  and so does the processing of any matches by lines 306 to 310, which is where a pass
  changes the set of found domains.
\<close>

inductive reachable :: "args \<Rightarrow> world \<Rightarrow> pattern \<Rightarrow> run_state \<Rightarrow> bool"
  for a :: args and w :: world and domain_re :: pattern where
  start: "found_domains st = {} \<Longrightarrow> reachable a w domain_re st"
| left: "reachable a w domain_re st \<Longrightarrow> page_step a w domain_re q page st = Break st'
         \<Longrightarrow> reachable a w domain_re st'"
| next_pass: "reachable a w domain_re st \<Longrightarrow> page_step a w domain_re q page st = Continue page' st'
         \<Longrightarrow> reachable a w domain_re st'"
| scanned: "reachable a w domain_re st \<Longrightarrow> reachable a w domain_re (add_matches a ms st)"

section \<open>Three runs\<close>

text \<open>
  A run with one credential, the stop flag \<open>-k\<close> and the full plan of 28 queries, in
  which the API answers every search request with status 403.
\<close>

definition exhausting_args :: args where
  "exhausting_args =
     \<lparr>domain = ''example.com'', tokens_arg = ''0123456789abcdef0123456789abcdef01234567'',
      output_arg = [], extended = False, quick = False, stop_when_no_token = True,
      raw = False, version = False\<rparr>"

definition exhausting_world :: world where
  "exhausting_world =
     \<lparr>env_token = [], tokens_file = None, shuffle = (\<lambda>ts. ts), start_time = 0,
      search_reply = (\<lambda>n q page tok. (Some 403, Map.empty, [])),
      fetch_reply = (\<lambda>url tok. (None, Map.empty, [])),
      json_loads = (\<lambda>body. None), decode_text = (\<lambda>body. body), writable = True\<rparr>"

text \<open>
  A run in quick mode in which the first result page names one file, the file mentions
  the target three times in different spellings, and the second page is empty.
\<close>

definition finding_args :: args where
  "finding_args =
     \<lparr>domain = ''example.com'', tokens_arg = ''0123456789abcdef0123456789abcdef01234567'',
      output_arg = [], extended = False, quick = True, stop_when_no_token = False,
      raw = True, version = False\<rparr>"

definition finding_world :: world where
  "finding_world =
     \<lparr>env_token = [], tokens_file = None, shuffle = (\<lambda>ts. ts), start_time = 0,
      search_reply = (\<lambda>n q page tok. (Some 200, Map.empty, if n = 0 then ''first'' else ''none'')),
      fetch_reply = (\<lambda>url tok.
         (Some 200, Map.empty, ''hosts: Foo.Example.com. foo.example.com, WWW.EXAMPLE.COM'')),
      json_loads = (\<lambda>body.
         if body = ''first''
         then Some (JObj [(''total_count'', JNum 1),
                          (''items'', JArr [JObj [(''html_url'',
                              JStr ''https://github.com/o/r/blob/main/hosts.txt'')]])])
         else Some (JObj [(''total_count'', JNum 1), (''items'', JArr [])])),
      decode_text = (\<lambda>body. body), writable = True\<rparr>"

text \<open>
  A run in quick mode in which the API answers the search request with status 200 and
  the body \<open>[1]\<close>: JSON, but a list and not the object with an \<open>items\<close> array that
  the search API documents.
\<close>

definition list_body_args :: args where
  "list_body_args =
     \<lparr>domain = ''example.com'', tokens_arg = ''0123456789abcdef0123456789abcdef01234567'',
      output_arg = [], extended = False, quick = True, stop_when_no_token = False,
      raw = False, version = False\<rparr>"

definition list_body_world :: world where
  "list_body_world =
     \<lparr>env_token = [], tokens_file = None, shuffle = (\<lambda>ts. ts), start_time = 0,
      search_reply = (\<lambda>n q page tok. (Some 200, Map.empty, ''[1]'')),
      fetch_reply = (\<lambda>url tok. (None, Map.empty, [])),
      json_loads = (\<lambda>body. if body = ''[1]'' then Some (JArr [JNum 1]) else None),
      decode_text = (\<lambda>body. body), writable = True\<rparr>"

section \<open>Facts about the string functions\<close>

lemma split_on_not_Nil [simp]: "split_on sep s \<noteq> []"
  by (induction s) (auto split: list.splits)

lemma length_split_on_pos [simp]: "0 < length (split_on sep s)"
  by (simp add: neq_Nil_conv [symmetric])

lemma split_on_no_sep: "sep \<notin> set s \<Longrightarrow> split_on sep s = [s]"
  by (induction s) auto

lemma split_on_single: "length (split_on sep s) < 2 \<longleftrightarrow> sep \<notin> set s"
proof (induction s)
  case Nil
  show ?case by simp
next
  case (Cons c cs)
  show ?case
  proof (cases "c = sep")
    case True
    then show ?thesis by simp
  next
    case False
    obtain w ws where w: "split_on sep cs = w # ws"
      by (cases "split_on sep cs") simp_all
    with False Cons show ?thesis by simp
  qed
qed

lemma join_split_on: "join [sep] (split_on sep s) = s"
proof (induction s)
  case Nil
  show ?case by simp
next
  case (Cons c cs)
  obtain w ws where w: "split_on sep cs = w # ws"
    by (cases "split_on sep cs") simp_all
  show ?case
  proof (cases "c = sep")
    case True
    with Cons w show ?thesis by simp
  next
    case False
    with Cons w show ?thesis by (cases ws) simp_all
  qed
qed

lemma hd_split_on_Nil:
  "hd (split_on sep s) = [] \<longleftrightarrow> s = [] \<or> hd s = sep"
proof (cases s)
  case Nil
  then show ?thesis by simp
next
  case (Cons c cs)
  obtain w ws where w: "split_on sep cs = w # ws"
    by (cases "split_on sep cs") simp_all
  with Cons show ?thesis by simp
qed

lemma join_append:
  "xs \<noteq> [] \<Longrightarrow> ys \<noteq> [] \<Longrightarrow> join sep (xs @ ys) = join sep xs @ sep @ join sep ys"
proof (induction sep xs rule: join.induct)
  case (1 sep)
  then show ?case by simp
next
  case (2 sep x)
  then show ?case by (cases ys) simp_all
next
  case (3 sep x y ys')
  then show ?case by simp
qed

lemma join_eq_Nil:
  "sep \<noteq> [] \<Longrightarrow> join sep xs = [] \<longleftrightarrow> xs = [] \<or> xs = [[]]"
  by (induction sep xs rule: join.induct) auto

lemma strip_where_hd: "strip_where P s \<noteq> [] \<Longrightarrow> \<not> P (hd (strip_where P s))"
proof -
  assume ne: "strip_where P s \<noteq> []"
  let ?t = "dropWhile P s"
  have t: "?t \<noteq> []"
  proof
    assume "?t = []"
    then have "strip_where P s = []"
      by (metis strip_where_def dropWhile.simps(1) rev.simps(1))
    with ne show False by simp
  qed
  then have h: "\<not> P (hd ?t)" by (simp add: hd_dropWhile)
  obtain a as where a: "?t = a # as" using t by (cases ?t) auto
  with h have na: "\<not> P a" by simp
  have "dropWhile P (rev ?t) = dropWhile P (rev as) @ [a]"
    using na a by (simp add: dropWhile_append)
  then have "strip_where P s = a # rev (dropWhile P (rev as))"
    by (simp add: strip_where_def)
  with na show ?thesis by simp
qed

lemma last_two:
  assumes "2 \<le> length xs"
  shows "xs = take (length xs - 2) xs @ [xs ! (length xs - 2), last xs]"
proof -
  from assms obtain ys b where 1: "xs = ys @ [b]"
    by (cases xs rule: rev_exhaust) auto
  with assms obtain zs a where 2: "ys = zs @ [a]"
    by (cases ys rule: rev_exhaust) auto
  from 1 2 show ?thesis by (simp add: nth_append)
qed

lemma host_of_hd: "host_of d \<noteq> [] \<Longrightarrow> hd (host_of d) \<noteq> CHR ''.''"
  using strip_where_hd [of "\<lambda>c. c \<in> set ''.''" "lower (strip d)"]
  by (simp add: host_of_def strip_chars_def)

lemma split_domain_rejoin_host:
  assumes "2 \<le> length (split_on CHR ''.'' (host_of d))"
  shows "rejoin (split_domain d) = host_of d"
proof -
  let ?h = "host_of d"
  let ?ls = "split_on CHR ''.'' ?h"
  let ?n = "length ?ls"
  let ?pre = "take (?n - 2) ?ls"
  have whole: "?ls = ?pre @ [?ls ! (?n - 2), last ?ls]"
    using assms by (rule last_two)
  have joined: "join ''.'' ?ls = ?h"
    using join_split_on [of "CHR ''.''" ?h] by simp
  have sd: "split_domain d = (join ''.'' ?pre, ?ls ! (?n - 2), last ?ls)"
    using assms by (simp add: split_domain_def Let_def)
  show ?thesis
  proof (cases "?pre = []")
    case True
    with whole have "?ls = [?ls ! (?n - 2), last ?ls]" by simp
    then have "join ''.'' ?ls = ?ls ! (?n - 2) @ ''.'' @ last ?ls"
      by (metis join.simps(2,3))
    with joined sd True show ?thesis by simp
  next
    case False
    have j: "join ''.'' ?ls = join ''.'' ?pre @ ''.'' @ ?ls ! (?n - 2) @ ''.'' @ last ?ls"
    proof -
      have "join ''.'' (?pre @ [?ls ! (?n - 2), last ?ls])
              = join ''.'' ?pre @ ''.'' @ join ''.'' [?ls ! (?n - 2), last ?ls]"
        using False by (intro join_append) simp_all
      with whole show ?thesis by simp
    qed
    have "join ''.'' ?pre \<noteq> []"
    proof
      assume e: "join ''.'' ?pre = []"
      with False have "?pre = [[]]" by (simp add: join_eq_Nil)
      then have "hd ?ls = []" using whole by (metis append_Cons hd_append2 list.sel(1) False)
      then have "?h = [] \<or> hd ?h = CHR ''.''" by (simp add: hd_split_on_Nil)
      moreover have "?h \<noteq> []" using assms by (cases ?h) auto
      ultimately show False using host_of_hd by blast
    qed
    with j joined sd show ?thesis by simp
  qed
qed

lemma of_char_py_lower_char:
  "(of_char (py_lower_char c) :: nat) =
     (if (65 \<le> (of_char c :: nat) \<and> (of_char c :: nat) \<le> 90)
         \<or> (192 \<le> (of_char c :: nat) \<and> (of_char c :: nat) \<le> 222 \<and> (of_char c :: nat) \<noteq> 215)
      then of_char c + 32 else of_char c)"
  by (auto simp: py_lower_char_def Let_def)

lemma py_lower_char_dot [simp]: "py_lower_char c = CHR ''.'' \<longleftrightarrow> c = CHR ''.''"
proof
  assume "py_lower_char c = CHR ''.''"
  then have "(of_char (py_lower_char c) :: nat) = 46" by simp
  then have "(of_char c :: nat) = 46"
    by (simp add: of_char_py_lower_char split: if_splits)
  then have "(of_char c :: nat) = of_char CHR ''.''" by simp
  then show "c = CHR ''.''" by (simp only: of_char_eq_iff)
next
  assume "c = CHR ''.''"
  then show "py_lower_char c = CHR ''.''" by (simp add: py_lower_char_def)
qed

lemma dot_py_lower_char [simp]: "CHR ''.'' = py_lower_char c \<longleftrightarrow> c = CHR ''.''"
  using py_lower_char_dot [of c] by (simp only: eq_commute [of "CHR ''.''"])

lemma set_strip_where: "set (strip_where P s) \<subseteq> set s"
proof -
  have "set (dropWhile P (rev (dropWhile P s))) \<subseteq> set (rev (dropWhile P s))"
    by (rule set_dropWhileD [THEN subsetI])
  also have "\<dots> \<subseteq> set s" using set_dropWhileD by fastforce
  finally show ?thesis by (simp add: strip_where_def)
qed

lemma dot_in_host_of: "CHR ''.'' \<in> set (host_of d) \<Longrightarrow> CHR ''.'' \<in> set d"
proof -
  assume "CHR ''.'' \<in> set (host_of d)"
  then have "CHR ''.'' \<in> set (lower (strip d))"
    using set_strip_where by (fastforce simp: host_of_def strip_chars_def)
  then have "CHR ''.'' \<in> set (strip d)" by (auto simp: lower_def)
  then show ?thesis using set_strip_where by (fastforce simp: strip_def)
qed

text \<open>
  C3. The specification puts the whole domain in the TLD slot; the code puts the normalised
  host in the registrable slot and leaves the TLD empty.
\<close>

theorem C3_split_domain_short_counterexample:
  "length (split_on CHR ''.'' ''localhost'') < 2
   \<and> split_domain ''localhost'' \<noteq> ([], [], ''localhost'')"
  by code_simp

text \<open>
  C3, as the code has it: for every domain string with fewer than two dot-separated
  labels, \<open>split_domain\<close> returns an empty subdomain, the normalised domain (whitespace
  stripped, lowercased, dots stripped at both ends) as the registrable name, and an
  empty TLD.
\<close>

theorem C3_split_domain_short:
  assumes "length (split_on CHR ''.'' d) < 2"
  shows "split_domain d = ([], host_of d, [])"
proof -
  from assms have "CHR ''.'' \<notin> set d" by (simp add: split_on_single)
  then have "CHR ''.'' \<notin> set (host_of d)" using dot_in_host_of by blast
  then have "length (split_on CHR ''.'' (host_of d)) < 2" by (simp add: split_on_single)
  then show ?thesis by (simp add: split_domain_def Let_def)
qed

theorem C3_split_domain_short_witness:
  "length (split_on CHR ''.'' '' LocalHost '') < 2
   \<and> split_domain '' LocalHost '' = ([], ''localhost'', [])"
proof -
  have h: "length (split_on CHR ''.'' '' LocalHost '') < 2" by code_simp
  have e: "host_of '' LocalHost '' = ''localhost''" by code_simp
  from h C3_split_domain_short [OF h] e show ?thesis by simp
qed

text \<open>
  C4. Rejoining does not give back a domain that is not in normal form.
\<close>

theorem C4_rejoin_counterexample:
  "2 \<le> length (split_on CHR ''.'' ''Example.COM'')
   \<and> rejoin (split_domain ''Example.COM'') \<noteq> ''Example.COM''"
  by code_simp

text \<open>
  C4, as the code has it: for every domain string whose normal form (whitespace
  stripped, lowercased, dots stripped at both ends) has at least two labels, rejoining
  the components of \<open>split_domain\<close> with dots, an empty subdomain left out, yields that
  normal form; it yields the domain string itself when that is already in normal form.
\<close>

theorem C4_rejoin_split_domain:
  assumes "2 \<le> length (split_on CHR ''.'' (host_of d))"
  shows "rejoin (split_domain d) = host_of d"
  using assms by (rule split_domain_rejoin_host)

theorem C4_rejoin_split_domain_witness:
  "2 \<le> length (split_on CHR ''.'' (host_of ''www.Example.com.''))
   \<and> rejoin (split_domain ''www.Example.com.'') = ''www.example.com''
   \<and> host_of ''www.example.com'' = ''www.example.com''
   \<and> rejoin (split_domain ''www.example.com'') = ''www.example.com''"
proof -
  have h1: "2 \<le> length (split_on CHR ''.'' (host_of ''www.Example.com.''))" by code_simp
  have e1: "host_of ''www.Example.com.'' = ''www.example.com''" by code_simp
  have e2: "host_of ''www.example.com'' = ''www.example.com''" by code_simp
  have h2: "2 \<le> length (split_on CHR ''.'' (host_of ''www.example.com''))" by code_simp
  from C4_rejoin_split_domain [OF h1] C4_rejoin_split_domain [OF h2] h1 e1 e2
  show ?thesis by simp
qed

section \<open>Response classification\<close>

lemma github_search_network: "github_search loads (None, hdr, body) = Inl Network"
  by (simp add: github_search_def)

lemma github_search_ratelimit:
  "st = 403 \<or> hdr ''X-RateLimit-Remaining'' = Some ''0''
   \<Longrightarrow> is_ratelimit (case github_search loads (Some st, hdr, body) of
                        Inl err \<Rightarrow> err | Inr data \<Rightarrow> Network)"
  by (auto simp: github_search_def is_ratelimit_def)

lemma github_search_status:
  "st \<noteq> 403 \<Longrightarrow> hdr ''X-RateLimit-Remaining'' \<noteq> Some ''0'' \<Longrightarrow> st \<noteq> 200
   \<Longrightarrow> github_search loads (Some st, hdr, body) = Inl (Http st)"
  by (simp add: github_search_def)

lemma github_search_body:
  "hdr ''X-RateLimit-Remaining'' \<noteq> Some ''0''
   \<Longrightarrow> github_search loads (Some 200, hdr, body)
       = (case loads body of None \<Rightarrow> Inl Json_error | Some data \<Rightarrow> Inr data)"
  by (simp add: github_search_def)

lemma fetch_code_network:
  "fetch_code dec (None, hdr, body) = Inl Network"
  "500 \<le> st \<Longrightarrow> fetch_code dec (Some st, hdr, body) = Inl Network"
  by (simp_all add: fetch_code_def)

lemma fetch_code_ratelimit:
  "st < 500 \<Longrightarrow> st = 403 \<or> hdr ''X-RateLimit-Remaining'' = Some ''0''
   \<Longrightarrow> fetch_code dec (Some st, hdr, body) = Inl (Ratelimit None)"
  by (auto simp: fetch_code_def)

lemma fetch_code_status:
  "st < 500 \<Longrightarrow> st \<noteq> 403 \<Longrightarrow> hdr ''X-RateLimit-Remaining'' \<noteq> Some ''0'' \<Longrightarrow> st \<noteq> 200
   \<Longrightarrow> fetch_code dec (Some st, hdr, body) = Inl (Http st)"
  by (simp add: fetch_code_def)

lemma fetch_code_body:
  "hdr ''X-RateLimit-Remaining'' \<noteq> Some ''0''
   \<Longrightarrow> fetch_code dec (Some 200, hdr, body) = Inr (dec body)"
  by (simp add: fetch_code_def)

text \<open>
  The header is looked up under the spelling \<open>X-RateLimit-Remaining\<close> in the dictionary
  made of the response headers: the same header in lower case is not seen.
\<close>

lemma github_search_header_spelling:
  "github_search loads (Some 200, [''x-ratelimit-remaining'' \<mapsto> ''0''], body)
     = (case loads body of None \<Rightarrow> Inl Json_error | Some data \<Rightarrow> Inr data)"
  by (simp add: github_search_def)

text \<open>
  C2. A search response with status 200 and the body \<open>[1]\<close> does not parse as the
  expected structure, yet it is classified as a success: \<open>github_search\<close> returns no
  error and the list as data, since it tests only that the body is JSON. \<open>main\<close> then
  calls \<open>data.get\<close> on the list (line 282), and the AttributeError ends the run with
  nothing caught and no output written.
\<close>

theorem C2_list_body_classified_ok:
  "github_search (json_loads list_body_world) (Some 200, Map.empty, ''[1]'')
     = Inr (JArr [JNum 1])
   \<and> page_loop 1 list_body_args list_body_world
         (snd (build_patterns ''example.com'' False)) ''q'' 1
         \<lparr>pool = TokenPool (\<lambda>ts. ts) [''0123456789abcdef0123456789abcdef01234567''] False,
          clock = 0, requests = 0, seen_urls = {}, found_domains = {}, out = []\<rparr>
     = Uncaught
   \<and> main 1 list_body_args list_body_world = Uncaught"
  by code_simp

section \<open>The patterns on the examples of the specification\<close>

text \<open>
  C6. The standard-mode pattern built for "example.com" matches "example.com" and
  "foo.example.com" as a whole and does not match "notexample.com"; scanning these
  strings as \<open>main\<close> does (\<open>re.finditer\<close>) yields "example.com", "foo.example.com" and,
  from "notexample.com", the part "example.com" only.
\<close>

theorem C6_standard_pattern:
  "fullmatch (snd (build_patterns ''example.com'' False)) ''example.com''
   \<and> fullmatch (snd (build_patterns ''example.com'' False)) ''foo.example.com''
   \<and> \<not> fullmatch (snd (build_patterns ''example.com'' False)) ''notexample.com''
   \<and> finditer (snd (build_patterns ''example.com'' False)) ''example.com'' = [''example.com'']
   \<and> finditer (snd (build_patterns ''example.com'' False)) ''foo.example.com''
       = [''foo.example.com'']
   \<and> finditer (snd (build_patterns ''example.com'' False)) ''notexample.com''
       = [''example.com'']"
  by code_simp

text \<open>
  C5. The extended-mode pattern asks for a run of host characters and a dot before the
  registrable name, so "example-foo.net" is not matched, as a whole or in part.
\<close>

theorem C5_extended_pattern_counterexample:
  "\<not> fullmatch (snd (build_patterns ''example.com'' True)) ''example-foo.net''
   \<and> finditer (snd (build_patterns ''example.com'' True)) ''example-foo.net'' = []"
  by code_simp

text \<open>
  C5, as the code has it: the extended-mode pattern built for "example.com" matches
  "sub.example-foo.net" (loose containment: a leading label and a dot, then the
  registrable name as a substring flanked by the host character class, followed by a
  trailing label of 1 to 5 letters).
\<close>

theorem C5_extended_pattern:
  "fullmatch (snd (build_patterns ''example.com'' True)) ''sub.example-foo.net''
   \<and> finditer (snd (build_patterns ''example.com'' True)) ''sub.example-foo.net''
       = [''sub.example-foo.net'']"
  by code_simp

section \<open>The credential list\<close>

lemma read_lines_distinct: "distinct toks \<Longrightarrow> distinct (read_lines toks ls)"
proof (induction ls arbitrary: toks)
  case Nil
  then show ?case by simp
next
  case (Cons line rest)
  show ?case
  proof (cases "strip line \<noteq> [] \<and> re_search TOKEN_RE (strip line) \<and> strip line \<notin> set toks")
    case True
    then have "read_lines toks (line # rest) = read_lines (toks @ [strip line]) rest"
      by (simp add: Let_def)
    moreover have "distinct (toks @ [strip line])" using True Cons.prems by simp
    ultimately show ?thesis using Cons.IH by simp
  next
    case False
    then have "read_lines toks (line # rest) = read_lines toks rest"
      by (auto simp: Let_def)
    then show ?thesis using Cons.IH Cons.prems by simp
  qed
qed

lemma read_lines_valid:
  "(\<And>t. t \<in> set toks \<Longrightarrow> re_search TOKEN_RE t)
   \<Longrightarrow> t \<in> set (read_lines toks ls) \<Longrightarrow> re_search TOKEN_RE t"
proof (induction ls arbitrary: toks)
  case Nil
  then show ?case by simp
next
  case (Cons line rest)
  show ?case
  proof (cases "strip line \<noteq> [] \<and> re_search TOKEN_RE (strip line) \<and> strip line \<notin> set toks")
    case True
    then have e: "read_lines toks (line # rest) = read_lines (toks @ [strip line]) rest"
      by (simp add: Let_def)
    have "\<And>u. u \<in> set (toks @ [strip line]) \<Longrightarrow> re_search TOKEN_RE u"
      using True Cons.prems(1) by auto
    then show ?thesis using Cons.IH [of "toks @ [strip line]"] Cons.prems(2) e by simp
  next
    case False
    then have "read_lines toks (line # rest) = read_lines toks rest"
      by (auto simp: Let_def)
    then show ?thesis using Cons.IH [of toks] Cons.prems by simp
  qed
qed

lemma read_tokens_from_file_distinct: "distinct (read_tokens_from_file file)"
  by (cases "file") (simp_all add: read_tokens_from_file_def read_lines_distinct)

lemma read_tokens_from_file_valid:
  "t \<in> set (read_tokens_from_file file) \<Longrightarrow> re_search TOKEN_RE t"
proof (cases "file")
  case None
  assume "t \<in> set (read_tokens_from_file file)"
  with None show ?thesis by (simp add: read_tokens_from_file_def)
next
  case (Some ls)
  assume "t \<in> set (read_tokens_from_file file)"
  with Some have "t \<in> set (read_lines [] ls)" by (simp add: read_tokens_from_file_def)
  then show ?thesis using read_lines_valid [of "[]" t ls] by simp
qed

lemma select_tokens_valid:
  assumes "t \<in> set (select_tokens a e f)"
  shows "re_search TOKEN_RE t"
proof -
  define t1 where "t1 = (if a \<noteq> []
             then map strip (filter (\<lambda>t. re_search TOKEN_RE (strip t)) (split_on CHR '','' a))
             else [])"
  define t2 where "t2 = (if t1 = []
             then (if strip e \<noteq> [] \<and> re_search TOKEN_RE (strip e) then [strip e] else t1)
             else t1)"
  have sel: "select_tokens a e f = (if t2 = [] then read_tokens_from_file f else t2)"
    unfolding select_tokens_def t1_def t2_def Let_def by (rule refl)
  have v1: "\<And>u. u \<in> set t1 \<Longrightarrow> re_search TOKEN_RE u"
    unfolding t1_def by (cases "a = []") auto
  have v2: "\<And>u. u \<in> set t2 \<Longrightarrow> re_search TOKEN_RE u"
    unfolding t2_def using v1 by (auto split: if_splits)
  show ?thesis
  proof (cases "t2 = []")
    case True
    with assms sel show ?thesis by (simp add: read_tokens_from_file_valid)
  next
    case False
    with assms sel v2 show ?thesis by simp
  qed
qed

text \<open>
  C7. The list taken from the \<open>-t\<close> argument keeps a credential given twice, while
  \<open>read_tokens_from_file\<close> drops the second occurrence of the same line; in the pool
  built from the list, \<open>disable\<close> then reaches the first of the two entries only and
  \<open>get\<close> hands the rate-limited credential out again.
\<close>

theorem C7_tokens_arg_keeps_duplicates:
  "select_tokens
     ''0123456789abcdef0123456789abcdef01234567,0123456789abcdef0123456789abcdef01234567''
     [] None
   = [''0123456789abcdef0123456789abcdef01234567'',
      ''0123456789abcdef0123456789abcdef01234567'']
   \<and> read_tokens_from_file
       (Some [''0123456789abcdef0123456789abcdef01234567'',
              ''0123456789abcdef0123456789abcdef01234567''])
     = [''0123456789abcdef0123456789abcdef01234567'']
   \<and> fst (get 1 (disable 0 ''0123456789abcdef0123456789abcdef01234567'' RATE_LIMIT_COOLDOWN
              (TokenPool (\<lambda>ts. ts)
                 [''0123456789abcdef0123456789abcdef01234567'',
                  ''0123456789abcdef0123456789abcdef01234567''] False)))
     = Some ''0123456789abcdef0123456789abcdef01234567''"
  by code_simp

section \<open>split_domain depends on the normal form only\<close>



lemma strip_where_last: "strip_where P s \<noteq> [] \<Longrightarrow> \<not> P (last (strip_where P s))"
proof -
  assume ne: "strip_where P s \<noteq> []"
  let ?x = "dropWhile P (rev (dropWhile P s))"
  from ne have x: "?x \<noteq> []" by (simp add: strip_where_def)
  then have "\<not> P (hd ?x)" by (rule hd_dropWhile)
  moreover have "last (strip_where P s) = hd ?x"
    using x by (simp add: strip_where_def last_rev)
  ultimately show ?thesis by simp
qed

lemma strip_where_id:
  assumes "s = [] \<or> (\<not> P (hd s) \<and> \<not> P (last s))"
  shows "strip_where P s = s"
proof (cases "s = []")
  case True
  then show ?thesis by (simp add: strip_where_def)
next
  case False
  with assms have h: "\<not> P (hd s)" and l: "\<not> P (last s)" by simp_all
  from False h have 1: "dropWhile P s = s" by (cases s) simp_all
  from False l have "\<not> P (hd (rev s))" by (simp add: hd_rev)
  with False have 2: "dropWhile P (rev s) = rev s" by (cases "rev s") simp_all
  from 1 2 show ?thesis by (simp add: strip_where_def)
qed

lemma strip_where_ends:
  assumes "strip_where P s = s"
  shows "s = [] \<or> (\<not> P (hd s) \<and> \<not> P (last s))"
  using assms strip_where_hd [of P s] strip_where_last [of P s] by auto

lemma not_space_dot [simp]: "\<not> py_isspace CHR ''.''"
  by (simp add: py_isspace_def)











section \<open>Rotation of the pool\<close>

lemma available_indices_all:
  assumes "\<forall>e \<in> set (tokens p). disabled_until e \<le> now"
  shows "available_indices now p = [0..<length (tokens p)]"
proof -
  have "\<forall>i \<in> set [0..<length (tokens p)]. disabled_until (tokens p ! i) \<le> now"
    using assms by simp
  then show ?thesis by (simp only: available_indices_def filter_True)
qed

lemma py_index_upt: "i < n \<Longrightarrow> py_index [0..<n] i = i"
proof -
  assume "i < n"
  then have "[0..<n] = [0..<i] @ i # [Suc i..<n]"
    by (metis le_add1 less_imp_add_positive plus_nat.add_0 upt_add_eq_append upt_conv_Cons
        less_or_eq_imp_le)
  moreover have "takeWhile (\<lambda>y. y \<noteq> i) ([0..<i] @ i # [Suc i..<n]) = [0..<i]"
    by (auto simp: takeWhile_append)
  ultimately show ?thesis by (simp add: py_index_def)
qed

lemma get_all_available:
  assumes av: "\<forall>e \<in> set (tokens p). disabled_until e \<le> now"
      and ne: "tokens p \<noteq> []"
      and ix: "idx p < length (tokens p)"
  shows "get now p =
           (Some (tvalue (tokens p ! idx p)), p\<lparr>idx := Suc (idx p) mod length (tokens p)\<rparr>)"
proof -
  let ?n = "length (tokens p)"
  have a: "available_indices now p = [0..<?n]" using av by (rule available_indices_all)
  have pos: "0 < ?n" using ne by simp
  have i: "py_index [0..<?n] (idx p) = idx p" using ix by (rule py_index_upt)
  show ?thesis
  proof (cases "?n \<le> Suc (idx p)")
    case True
    with ix have "Suc (idx p) = ?n" by simp
    then have m: "Suc (idx p) mod ?n = 0" by simp
    show ?thesis
      unfolding get_def Let_def a using pos ix i True m by simp
  next
    case False
    then have m: "Suc (idx p) mod ?n = Suc (idx p)" by simp
    show ?thesis
      unfolding get_def Let_def a using pos ix i False m by simp
  qed
qed

lemma get_resets_cursor:
  assumes av: "\<forall>e \<in> set (tokens p). disabled_until e \<le> now"
      and ne: "tokens p \<noteq> []"
      and ix: "\<not> idx p < length (tokens p)"
  shows "get now p = get now (p\<lparr>idx := 0\<rparr>)"
proof -
  let ?n = "length (tokens p)"
  have a: "available_indices now p = [0..<?n]" using av by (rule available_indices_all)
  have a0: "available_indices now (p\<lparr>idx := 0\<rparr>) = [0..<?n]"
    using a by (simp add: available_indices_def)
  have pos: "0 < ?n" using ne by simp
  then have h: "hd [0..<?n] = 0" by (simp add: upt_conv_Cons)
  show ?thesis
    unfolding get_def Let_def a a0 using pos ix h by simp
qed

lemma get_many_rotation:
  assumes "\<forall>e \<in> set (tokens p). \<forall>now \<in> set nows. disabled_until e \<le> now"
      and "tokens p \<noteq> []"
      and "idx p < length (tokens p)"
  shows "get_many nows p =
           map (\<lambda>k. Some (tvalue (tokens p ! ((idx p + k) mod length (tokens p)))))
               [0..<length nows]"
  using assms
proof (induction nows arbitrary: p)
  case Nil
  show ?case by simp
next
  case (Cons now nows)
  let ?n = "length (tokens p)"
  let ?p' = "p\<lparr>idx := Suc (idx p) mod ?n\<rparr>"
  have g: "get now p = (Some (tvalue (tokens p ! idx p)), ?p')"
    using Cons.prems by (intro get_all_available) auto
  have pos: "0 < ?n" using Cons.prems(2) by simp
  have ih: "get_many nows ?p' =
              map (\<lambda>k. Some (tvalue (tokens ?p' ! ((idx ?p' + k) mod length (tokens ?p')))))
                  [0..<length nows]"
    using Cons.prems pos by (intro Cons.IH) auto
  have step: "\<And>k. (Suc (idx p) mod ?n + k) mod ?n = (idx p + Suc k) mod ?n"
    by (simp add: mod_add_left_eq)
  have "[0..<length (now # nows)] = 0 # map Suc [0..<length nows]"
    by (simp add: upt_conv_Cons map_Suc_upt del: upt_Suc)
  then show ?case
    using g ih Cons.prems(3) by (simp add: step comp_def del: upt_Suc)
qed

lemma mset_rotate_eq: "mset (rotate n xs) = mset xs"
proof -
  let ?k = "n mod length xs"
  have "mset (rotate n xs) = mset (drop ?k xs) + mset (take ?k xs)"
    by (simp add: rotate_drop_take)
  also have "\<dots> = mset (take ?k xs @ drop ?k xs)"
    by (simp only: mset_append add.commute)
  also have "\<dots> = mset xs" by simp
  finally show ?thesis .
qed

text \<open>
  C8. In a pool in which every credential is available at each of \<open>N\<close> successive calls
  of \<open>get\<close>, with \<open>N\<close> at least the size \<open>P\<close> of the pool, the first \<open>P\<close> calls return the
  entries of the pool in cyclic order from the cursor: each entry once before any entry
  is returned a second time.
\<close>

theorem C8_round_robin:
  assumes "\<forall>e \<in> set (tokens p). \<forall>now \<in> set nows. disabled_until e \<le> now"
      and "tokens p \<noteq> []"
      and "length (tokens p) \<le> length nows"
  shows "take (length (tokens p)) (get_many nows p) =
           map (\<lambda>e. Some (tvalue e))
               (rotate (if idx p < length (tokens p) then idx p else 0) (tokens p))
         \<and> mset (take (length (tokens p)) (get_many nows p)) =
             mset (map (\<lambda>e. Some (tvalue e)) (tokens p))"
proof -
  let ?n = "length (tokens p)"
  let ?i = "if idx p < ?n then idx p else 0"
  let ?q = "p\<lparr>idx := ?i\<rparr>"
  have pos: "0 < ?n" using assms(2) by simp
  obtain now rest where nows: "nows = now # rest"
    using assms(3) pos by (cases nows) auto
  have same: "get_many nows p = get_many nows ?q"
  proof (cases "idx p < ?n")
    case True
    then show ?thesis by simp
  next
    case False
    have "get now p = get now (p\<lparr>idx := 0\<rparr>)"
      using assms(1,2) False nows by (intro get_resets_cursor) auto
    with False nows show ?thesis by simp
  qed
  have "get_many nows ?q =
          map (\<lambda>k. Some (tvalue (tokens ?q ! ((idx ?q + k) mod length (tokens ?q)))))
              [0..<length nows]"
    using assms(1,2) pos by (intro get_many_rotation) auto
  then have all: "get_many nows p =
          map (\<lambda>k. Some (tvalue (tokens p ! ((?i + k) mod ?n)))) [0..<length nows]"
    using same by simp
  have "take ?n (get_many nows p) =
          map (\<lambda>k. Some (tvalue (tokens p ! ((?i + k) mod ?n)))) [0..<?n]"
    using assms(3) by (simp only: all take_map take_upt) simp
  also have "\<dots> = map (\<lambda>e. Some (tvalue e)) (rotate ?i (tokens p))"
    by (rule nth_equalityI) (simp_all add: nth_rotate)
  finally have 1: "take ?n (get_many nows p) =
                     map (\<lambda>e. Some (tvalue e)) (rotate ?i (tokens p))" .
  then have "mset (take ?n (get_many nows p)) = mset (map (\<lambda>e. Some (tvalue e)) (tokens p))"
    by (simp only: mset_map mset_rotate_eq)
  with 1 show ?thesis by simp
qed

theorem C8_round_robin_witness:
  "take 3 (get_many [5, 5, 6, 7]
      \<lparr>tokens = [\<lparr>tvalue = ''a'', disabled_until = 0\<rparr>, \<lparr>tvalue = ''b'', disabled_until = 0\<rparr>,
                 \<lparr>tvalue = ''c'', disabled_until = 2\<rparr>],
       stop_when_empty = False, idx = 1\<rparr>)
   = [Some ''b'', Some ''c'', Some ''a'']"
proof -
  let ?p = "\<lparr>tokens = [\<lparr>tvalue = ''a'', disabled_until = 0\<rparr>,
                        \<lparr>tvalue = ''b'', disabled_until = 0\<rparr>,
                        \<lparr>tvalue = ''c'', disabled_until = 2\<rparr>],
              stop_when_empty = False, idx = 1\<rparr>"
  let ?nows = "[5, 5, 6, 7] :: real list"
  have h1: "\<forall>e \<in> set (tokens ?p). \<forall>now \<in> set ?nows. disabled_until e \<le> now" by simp
  have h2: "tokens ?p \<noteq> []" by simp
  have h3: "length (tokens ?p) \<le> length ?nows" by simp
  have n: "length (tokens ?p) = 3" by simp
  have r: "map (\<lambda>e. Some (tvalue e))
             (rotate (if idx ?p < length (tokens ?p) then idx ?p else 0) (tokens ?p))
           = [Some ''b'', Some ''c'', Some ''a'']"
    by (simp add: rotate1_def)
  from C8_round_robin [OF h1 h2 h3] have
    "take (length (tokens ?p)) (get_many ?nows ?p) =
       map (\<lambda>e. Some (tvalue e))
           (rotate (if idx ?p < length (tokens ?p) then idx ?p else 0) (tokens ?p))"
    by (rule conjunct1)
  then have "take (length (tokens ?p)) (get_many ?nows ?p) = [Some ''b'', Some ''c'', Some ''a'']"
    by (simp only: r)
  then show ?thesis by (simp only: n)
qed

section \<open>The set of found domains\<close>

lemma py_lower_char_idem: "py_lower_char (py_lower_char c) = py_lower_char c"
proof -
  have "(of_char c :: nat) < 256" by simp
  then have "(of_char (py_lower_char (py_lower_char c)) :: nat) = of_char (py_lower_char c)"
    by (simp add: of_char_py_lower_char)
  then show ?thesis by (simp only: of_char_eq_iff)
qed

lemma lower_fixed: "set t \<subseteq> set (lower s) \<Longrightarrow> lower t = t"
proof -
  assume sub: "set t \<subseteq> set (lower s)"
  have "\<forall>c \<in> set t. py_lower_char c = c"
  proof
    fix c assume "c \<in> set t"
    with sub obtain d where "c = py_lower_char d" by (auto simp: lower_def)
    then show "py_lower_char c = c" by (simp add: py_lower_char_idem)
  qed
  then show ?thesis by (simp add: lower_def map_idI)
qed

lemma strip_where_idem: "strip_where P (strip_where P s) = strip_where P s"
  using strip_where_hd [of P s] strip_where_last [of P s]
  by (intro strip_where_id) auto

lemma normalize_match_idem: "normalize_match (normalize_match m) = normalize_match m"
proof -
  let ?t = "strip_where (\<lambda>c. c \<in> set ''.'') (lower m)"
  have "lower ?t = ?t" using set_strip_where by (intro lower_fixed)
  then show ?thesis
    by (simp add: normalize_match_def strip_chars_def strip_where_idem)
qed

lemma normal_form_normalize_match: "normal_form (normalize_match m)"
  by (simp only: normal_form_def normalize_match_idem)

lemma found_domains_say [simp]: "found_domains (say a lvl msg st) = found_domains st"
  by (simp add: say_def)

lemma found_domains_sleep [simp]: "found_domains (sleep d st) = found_domains st"
  by (simp add: sleep_def)

lemma add_matches_Cons:
  "add_matches a (m # ms) st =
     (if normalize_match m \<noteq> [] \<and> normalize_match m \<notin> found_domains st
      then add_matches a ms
             (say a L_found (Found_domain (normalize_match m))
                (st\<lparr>found_domains := insert (normalize_match m) (found_domains st)\<rparr>))
      else add_matches a ms st)"
  by (simp only: add_matches.simps Let_def)

lemma add_matches_normal:
  "\<forall>d \<in> found_domains st. normal_form d
   \<Longrightarrow> \<forall>d \<in> found_domains (add_matches a ms st). normal_form d"
proof (induction ms arbitrary: st)
  case Nil
  then show ?case by (simp only: add_matches.simps)
next
  case (Cons m ms)
  let ?dom = "normalize_match m"
  let ?st = "say a L_found (Found_domain ?dom) (st\<lparr>found_domains := insert ?dom (found_domains st)\<rparr>)"
  show ?case
  proof (cases "?dom \<noteq> [] \<and> ?dom \<notin> found_domains st")
    case True
    have f: "found_domains ?st = insert ?dom (found_domains st)" by (simp add: say_def)
    have "\<forall>d \<in> found_domains ?st. normal_form d"
      unfolding f using Cons.prems normal_form_normalize_match by blast
    then have "\<forall>d \<in> found_domains (add_matches a ms ?st). normal_form d"
      by (rule Cons.IH)
    moreover have "add_matches a (m # ms) st = add_matches a ms ?st"
      by (subst add_matches_Cons) (rule if_P [OF True])
    ultimately show ?thesis by (simp only:)
  next
    case False
    have "add_matches a (m # ms) st = add_matches a ms st"
      by (subst add_matches_Cons) (rule if_not_P [OF False])
    moreover have "\<forall>d \<in> found_domains (add_matches a ms st). normal_form d"
      using Cons.prems by (rule Cons.IH)
    ultimately show ?thesis by (simp only:)
  qed
qed

lemma collect_results_normal:
  "\<forall>d \<in> found_domains st. normal_form d
   \<Longrightarrow> \<forall>d \<in> found_domains (collect_results a w domain_re tok urls st). normal_form d"
proof (induction urls arbitrary: st)
  case Nil
  then show ?case by simp
next
  case (Cons url urls)
  show ?case
  proof (cases "fetch_code (decode_text w) (fetch_reply w (to_raw_url url) tok)")
    case (Inl ferr)
    let ?st = "if is_ratelimit ferr
               then st\<lparr>pool := disable (clock st) tok RATE_LIMIT_COOLDOWN (pool st)\<rparr> else st"
    have "\<forall>d \<in> found_domains ?st. normal_form d" using Cons.prems by simp
    then have "\<forall>d \<in> found_domains (collect_results a w domain_re tok urls ?st).
                 normal_form d"
      by (rule Cons.IH)
    with Inl show ?thesis by simp
  next
    case (Inr body_text)
    show ?thesis
    proof (cases "body_text = []")
      case True
      with Inr Cons.IH [OF Cons.prems] show ?thesis by simp
    next
      case False
      have "\<forall>d \<in> found_domains (add_matches a (finditer domain_re body_text) st).
              normal_form d"
        using Cons.prems by (rule add_matches_normal)
      then have "\<forall>d \<in> found_domains (collect_results a w domain_re tok urls
                     (add_matches a (finditer domain_re body_text) st)). normal_form d"
        by (rule Cons.IH)
      with Inr False show ?thesis by simp
    qed
  qed
qed

lemma page_step_normal:
  assumes inv: "\<forall>d \<in> found_domains st. normal_form d"
      and step: "page_step a w domain_re q page st = Break st'
                 \<or> page_step a w domain_re q page st = Continue page' st'"
  shows "\<forall>d \<in> found_domains st'. normal_form d"
proof (cases "get (clock st) (pool st)")
  case (Pair r pool')
  show ?thesis
  proof (cases r)
    case None
    with Pair step have "found_domains st' = found_domains st"
      by (auto simp: page_step_def split: if_splits)
    with inv show ?thesis by simp
  next
    case (Some tok)
    let ?st1 = "st\<lparr>pool := pool', requests := Suc (requests st)\<rparr>"
    have inv1: "\<forall>d \<in> found_domains ?st1. normal_form d" using inv by simp
    show ?thesis
    proof (cases "github_search (json_loads w) (search_reply w (requests st) q page tok)")
      case (Inl err)
      with Pair Some step have "found_domains st' = found_domains st"
        by (auto simp: page_step_def Let_def split: if_splits)
      with inv show ?thesis by simp
    next
      case (Inr data)
      show ?thesis
      proof (cases data)
        case (JObj kvs)
        let ?items0 = "case map_of kvs ''items'' of None \<Rightarrow> JNull | Some v \<Rightarrow> v"
        let ?items = "if json_truthy ?items0 then ?items0 else JArr []"
        show ?thesis
        proof (cases "json_truthy ?items")
          case False
          with Pair Some Inr JObj step have "found_domains st' = found_domains st"
            by (auto simp: page_step_def Let_def split: if_splits)
          with inv show ?thesis by simp
        next
          case True
          show ?thesis
          proof (cases ?items)
            case (JArr its)
            show ?thesis
            proof (cases "submit_items its (seen_urls ?st1) []")
              case None
              with Pair Some Inr JObj True JArr step show ?thesis
                by (simp add: page_step_def Let_def)
            next
              case (Some su)
              obtain seen urls where su: "su = (seen, urls)" by (cases su)
              have "\<forall>d \<in> found_domains (?st1\<lparr>seen_urls := seen\<rparr>). normal_form d"
                using inv by simp
              then have c: "\<forall>d \<in> found_domains (collect_results a w domain_re tok urls
                              (?st1\<lparr>seen_urls := seen\<rparr>)). normal_form d"
                by (rule collect_results_normal)
              from Pair \<open>r = Some tok\<close> Inr JObj True JArr Some su step
              have "st' = sleep (1 / 5) (collect_results a w domain_re tok urls
                              (?st1\<lparr>seen_urls := seen\<rparr>))"
                by (simp add: page_step_def Let_def)
              with c show ?thesis by simp
            qed
          qed (use Pair Some Inr JObj True step in \<open>simp_all add: page_step_def Let_def\<close>)
        qed
      qed (use Pair Some Inr step in \<open>simp_all add: page_step_def Let_def\<close>)
    qed
  qed
qed

lemma reachable_normal:
  "reachable a w domain_re st \<Longrightarrow> \<forall>d \<in> found_domains st. normal_form d"
proof (induction rule: reachable.induct)
  case (start st)
  then show ?case by simp
next
  case (left st q page st')
  then show ?case using page_step_normal by blast
next
  case (next_pass st q page page' st')
  then show ?case using page_step_normal by blast
next
  case (scanned st ms)
  from scanned.IH show ?case by (rule add_matches_normal)
qed

lemma normal_form_lower: "normal_form x \<Longrightarrow> lower x = x"
proof -
  assume "normal_form x"
  then have x: "strip_where (\<lambda>c. c \<in> set ''.'') (lower x) = x"
    by (simp only: normal_form_def normalize_match_def strip_chars_def)
  have "set (strip_where (\<lambda>c. c \<in> set ''.'') (lower x)) \<subseteq> set (lower x)"
    by (rule set_strip_where)
  then have "set x \<subseteq> set (lower x)" by (simp only: x)
  then show ?thesis by (rule lower_fixed)
qed

lemma normal_form_strip: "normal_form x \<Longrightarrow> strip_chars ''.'' x = x"
proof -
  assume n: "normal_form x"
  then have "strip_chars ''.'' (lower x) = x"
    by (simp only: normal_form_def normalize_match_def)
  with n show ?thesis by (simp only: normal_form_lower)
qed

lemma rstrip_dots_fixed: "strip_chars ''.'' x = x \<Longrightarrow> rstrip_dots x = x"
proof (cases "x = []")
  case True
  then show ?thesis by (simp add: rstrip_dots_def)
next
  case False
  assume "strip_chars ''.'' x = x"
  then have "strip_where (\<lambda>c. c \<in> set ''.'') x = x" by (simp only: strip_chars_def)
  with False have "last x \<noteq> CHR ''.''"
    using strip_where_ends [of "\<lambda>c. c \<in> set ''.''" x] by auto
  with False have "hd (rev x) \<noteq> CHR ''.''" by (simp add: hd_rev)
  with False have "dropWhile (\<lambda>c. c = CHR ''.'') (rev x) = rev x"
    by (cases "rev x") simp_all
  then show ?thesis by (simp add: rstrip_dots_def)
qed

text \<open>
  C9. At every point of a run every entry of the set of found domains is lower case
  and has no dot at either end, so the set never contains two entries that differ only
  by letter case or by a trailing dot: two entries that are equal up to case and
  trailing dots are the same entry. The normalisation of line 307, which every match
  goes through before it is inserted, is idempotent.
\<close>

theorem C9_found_domains_normalised:
  assumes "reachable a w domain_re st"
      and "x \<in> found_domains st" and "y \<in> found_domains st"
  shows "lower x = x
         \<and> strip_chars ''.'' x = x
         \<and> same_but_case_or_trailing_dot x y = (x = y)
         \<and> normalize_match (normalize_match m) = normalize_match m"
proof -
  from assms(1) have "\<forall>d \<in> found_domains st. normal_form d" by (rule reachable_normal)
  with assms(2,3) have nx: "normal_form x" and ny: "normal_form y" by simp_all
  have lx: "lower x = x" and ly: "lower y = y"
    using nx ny by (simp_all only: normal_form_lower)
  have sx: "strip_chars ''.'' x = x" and sy: "strip_chars ''.'' y = y"
    using nx ny by (simp_all only: normal_form_strip)
  have "same_but_case_or_trailing_dot x y = (lower x = lower y)"
    using sx sy by (simp only: same_but_case_or_trailing_dot_def rstrip_dots_fixed)
  then have "same_but_case_or_trailing_dot x y = (x = y)" by (simp only: lx ly)
  with lx sx normalize_match_idem show ?thesis by (intro conjI)
qed

theorem C9_found_domains_normalised_witness:
  "lower ''foo.example.com'' = ''foo.example.com''
   \<and> strip_chars ''.'' ''foo.example.com'' = ''foo.example.com''
   \<and> same_but_case_or_trailing_dot ''foo.example.com'' ''www.example.com''
       = (''foo.example.com'' = ''www.example.com'')
   \<and> normalize_match (normalize_match ''Foo.Example.com.'')
       = normalize_match ''Foo.Example.com.''"
proof -
  let ?re = "snd (build_patterns ''example.com'' False)"
  let ?pool = "\<lparr>tokens = [\<lparr>tvalue = ''0123456789abcdef0123456789abcdef01234567'',
                             disabled_until = 0\<rparr>],
                 stop_when_empty = False, idx = 0\<rparr>"
  let ?st0 = "\<lparr>pool = ?pool, clock = 0, requests = 0, seen_urls = {}, found_domains = {},
                out = []\<rparr>"
  let ?st1 = "\<lparr>pool = ?pool, clock = 1 / 5, requests = 1,
                seen_urls = {''https://github.com/o/r/blob/main/hosts.txt''},
                found_domains = {''www.example.com'', ''foo.example.com''},
                out = [Plain (Found_domain ''foo.example.com''),
                       Plain (Found_domain ''www.example.com'')]\<rparr>"
  have step: "page_step finding_args finding_world ?re ''example.com'' 1 ?st0 = Continue 2 ?st1"
    by code_simp
  have "found_domains ?st0 = {}" by simp
  then have "reachable finding_args finding_world ?re ?st0" by (rule reachable.start)
  then have r: "reachable finding_args finding_world ?re ?st1"
    using step by (rule reachable.next_pass)
  have x: "''foo.example.com'' \<in> found_domains ?st1" by simp
  have y: "''www.example.com'' \<in> found_domains ?st1" by simp
  show ?thesis by (rule C9_found_domains_normalised [OF r x y])
qed

section \<open>An exhausted pool with the stop flag\<close>

lemma get_exhausted: "available_indices t p = [] \<Longrightarrow> get t p = (None, p)"
  by (simp add: get_def)

lemma page_loop_exhausted:
  assumes "stop_when_no_token a"
      and "available_indices (clock st) (pool st) = []"
      and "page \<le> SEARCH_MAX_PAGES"
  shows "page_loop (Suc fuel) a w domain_re q page st
           = Finished (say a L_error No_token_exiting st)"
  using assms by (simp add: page_step_def get_exhausted)

lemma query_loop_exhausted:
  assumes "stop_when_no_token a"
      and "available_indices (clock st) (pool st) = []"
  shows "query_loop (Suc fuel) a w domain_re qs st
           = Finished ((say a L_error No_token_exiting ^^ length qs) st)"
  using assms(2)
proof (induction qs arbitrary: st)
  case Nil
  show ?case by simp
next
  case (Cons q qs)
  let ?st = "say a L_error No_token_exiting st"
  have one: "(1::nat) \<le> SEARCH_MAX_PAGES" by (simp add: SEARCH_MAX_PAGES_def)
  have p: "page_loop (Suc fuel) a w domain_re q 1 st = Finished ?st"
    using assms(1) Cons.prems one by (rule page_loop_exhausted)
  have "available_indices (clock ?st) (pool ?st) = []"
    using Cons.prems by (simp add: say_def)
  then have "query_loop (Suc fuel) a w domain_re qs ?st
               = Finished ((say a L_error No_token_exiting ^^ length qs) ?st)"
    by (rule Cons.IH)
  with p show ?case by (simp add: funpow_swap1 del: page_loop.simps)
qed

text \<open>
  C1. One credential, the stop flag set, the full plan of 28 queries, and an API that
  answers 403: the first query disables the credential and then finds the pool
  exhausted; the loop over the queries goes on all the same, each of the 27 remaining
  queries finds the pool exhausted and prints the message again, and the run ends as
  every run does: it writes the output file, prints the summary and returns with
  status 0.
\<close>

theorem C1_stop_flag_leaves_page_loop_only:
  "main 2 exhausting_args exhausting_world =
     Finished
       \<lparr>exit_status = 0,
        printed_lines =
          [Stamped Banner,
           Stamped (Settings ''example.com'' False False 1 ''example.com.txt''),
           Stamped Rate_limit_hit]
          @ replicate 28 (Stamped No_token_exiting)
          @ [Stamped (Done_line 0 ''example.com.txt'')],
        written = Some (''example.com.txt'', [])\<rparr>"
  by code_simp

end
